theory Spec2Isabelle
  imports Complex_Main "HOL-Library.AList"
begin

section \<open>Characters and character classes\<close>

text \<open>
  The page text is a Python \<open>str\<close>; a character is modelled by \<^typ>\<open>char\<close>, read as
  the code point below 256 with the same number. The three predicates are the
  classifications the \<open>re\<close> module applies to a \<open>str\<close> pattern on these code points:
  \<open>\d\<close> (decimal digits), \<open>\s\<close> (white space, which has the separators 28 to 31, NEL
  and the no-break space) and the word characters that decide \<open>\b\<close> (alphanumerics and
  the underscore).
\<close>

definition code :: "char \<Rightarrow> nat" where
  "code c = of_char c"

definition is_decimal :: "char \<Rightarrow> bool" where
  "is_decimal c = (48 \<le> code c \<and> code c \<le> 57)"

definition is_space :: "char \<Rightarrow> bool" where
  "is_space c = (code c \<in> set [9, 10, 11, 12, 13, 28, 29, 30, 31, 32, 133, 160])"

definition is_word :: "char \<Rightarrow> bool" where
  "is_word c = (let n = code c in
     (48 \<le> n \<and> n \<le> 57) \<or> (65 \<le> n \<and> n \<le> 90) \<or> n = 95 \<or> (97 \<le> n \<and> n \<le> 122) \<or>
     n \<in> set [170, 178, 179, 181, 185, 186, 188, 189, 190] \<or>
     (192 \<le> n \<and> n \<le> 214) \<or> (216 \<le> n \<and> n \<le> 246) \<or> 248 \<le> n)"

text \<open>The items of a bracketed class: a range \<open>a-b\<close>, one character, \<open>\d\<close>, \<open>\s\<close>.\<close>

datatype citem = Range char char | Single char | Digit | Space

fun in_item :: "char \<Rightarrow> citem \<Rightarrow> bool" where
  "in_item c (Range a b) = (code a \<le> code c \<and> code c \<le> code b)"
| "in_item c (Single a) = (c = a)"
| "in_item c Digit = is_decimal c"
| "in_item c Space = is_space c"

definition in_class :: "citem list \<Rightarrow> char \<Rightarrow> bool" where
  "in_class cs c = list_ex (in_item c) cs"

section \<open>Patterns and the backtracking matcher of \<open>re.search\<close>\<close>

text \<open>
  The constructs the four patterns of \<open>extract_dividend_details\<close> use: literal text, one
  character of a class, the greedy \<open>+\<close> (which the source applies to classes only), the
  counted repetition \<open>{n}\<close>, concatenation, the ordered alternation \<open>|\<close>, the word
  boundary \<open>\b\<close> and a numbered capturing group.
\<close>

datatype regex =
    Lit string
  | Cls "citem list"
  | PlusCls "citem list"
  | Rep nat regex
  | Seq regex regex
  | Alt regex regex
  | WordB
  | Group nat regex

type_synonym span = "nat \<times> nat"

text \<open>A state of the matcher: the position in the text and the groups captured so far.\<close>

type_synonym mstate = "nat \<times> (nat \<times> span) list"

definition word_boundary :: "string \<Rightarrow> nat \<Rightarrow> bool" where
  "word_boundary t i =
     ((0 < i \<and> i \<le> length t \<and> is_word (t ! (i - 1))) \<noteq> (i < length t \<and> is_word (t ! i)))"

text \<open>
  \<open>backtrack r t st\<close> lists the states in which a match of \<open>r\<close> begun in \<open>st\<close> can end, in
  the order in which backtracking tries them: the greedy \<open>+\<close> offers the longest run
  first, an alternation its left branch first.
\<close>

primrec backtrack :: "regex \<Rightarrow> string \<Rightarrow> mstate \<Rightarrow> mstate list" where
  "backtrack (Lit s) t = (\<lambda>(i, c). if take (length s) (drop i t) = s then [(i + length s, c)] else [])"
| "backtrack (Cls cs) t = (\<lambda>(i, c). if i < length t \<and> in_class cs (t ! i) then [(Suc i, c)] else [])"
| "backtrack (PlusCls cs) t =
     (\<lambda>(i, c). map (\<lambda>k. (i + k, c)) (rev [1..<Suc (length (takeWhile (in_class cs) (drop i t)))]))"
| "backtrack (Rep n r) t = (\<lambda>st. ((\<lambda>sts. concat (map (backtrack r t) sts)) ^^ n) [st])"
| "backtrack (Seq r s) t = (\<lambda>st. concat (map (backtrack s t) (backtrack r t st)))"
| "backtrack (Alt r s) t = (\<lambda>st. backtrack r t st @ backtrack s t st)"
| "backtrack WordB t = (\<lambda>(i, c). if word_boundary t i then [(i, c)] else [])"
| "backtrack (Group k r) t = (\<lambda>(i, c). map (\<lambda>(j, c'). (j, (k, (i, j)) # c')) (backtrack r t (i, c)))"

text \<open>A match object: where the match starts and ends, and its groups.\<close>

type_synonym match = "nat \<times> nat \<times> (nat \<times> span) list"

fun scan :: "regex \<Rightarrow> string \<Rightarrow> nat list \<Rightarrow> match option" where
  "scan r t [] = None"
| "scan r t (i # is) =
     (case backtrack r t (i, []) of
        [] \<Rightarrow> scan r t is
      | (j, c) # _ \<Rightarrow> Some (i, j, c))"

text \<open>\<open>re.search\<close> tries every start position from the left and keeps the first match.\<close>

definition re_search :: "regex \<Rightarrow> string \<Rightarrow> match option" where
  "re_search r t = scan r t [0..<Suc (length t)]"

definition slice :: "string \<Rightarrow> nat \<Rightarrow> nat \<Rightarrow> string" where
  "slice t i j = take (j - i) (drop i t)"

section \<open>Python values\<close>

text \<open>
  The values the program handles: strings, floats and \<open>None\<close>. The type \<open>'f\<close> stands for
  Python's \<open>float\<close>.
\<close>

datatype 'f pyval = Str string | Float 'f | PyNone

datatype pyerror = OSError | PdfReadError | TypeError | InvalidFileException | KeyError string

text \<open>\<open>m.group(k)\<close>: the whole match for \<open>k = 0\<close>, \<open>None\<close> for a group that took no part.\<close>

definition group :: "string \<Rightarrow> match \<Rightarrow> nat \<Rightarrow> 'f pyval" where
  "group t mt k =
     (case mt of (i, j, c) \<Rightarrow>
        if k = 0 then Str (slice t i j)
        else (case map_of c k of None \<Rightarrow> PyNone | Some (a, b) \<Rightarrow> Str (slice t a b)))"

definition nat_of_digits :: "string \<Rightarrow> nat" where
  "nat_of_digits s = foldl (\<lambda>a c. 10 * a + (code c - 48)) 0 s"

text \<open>The number a string of the form digits, point, digits denotes.\<close>

definition decimal_value :: "string \<Rightarrow> rat" where
  "decimal_value s =
     (let ip = takeWhile (\<lambda>c. c \<noteq> CHR ''.'') s; fp = drop (Suc (length ip)) s
      in of_nat (nat_of_digits ip) + of_nat (nat_of_digits fp) / 10 ^ length fp)"

text \<open>
  \<open>float(v)\<close>. The conversion of a decimal numeral to the nearest binary floating-point
  number is the parameter \<open>rnd\<close>; a float literal \<open>123.45\<close> of a Python program is
  \<open>rnd (12345 / 100)\<close>. Of the strings \<open>float\<close> accepts only those of the form digits,
  point, digits are modelled: the capture group \<open>(\d+\.\d+)\<close> yields no other.
\<close>

definition py_float :: "(rat \<Rightarrow> 'f) \<Rightarrow> 'f pyval \<Rightarrow> pyerror + 'f pyval" where
  "py_float rnd v =
     (case v of
        Str s \<Rightarrow> Inr (Float (rnd (decimal_value s)))
      | Float x \<Rightarrow> Inr (Float x)
      | PyNone \<Rightarrow> Inl TypeError)"

section \<open>The four patterns\<close>

definition digit :: regex where
  "digit = Cls [Digit]"

definition letter :: regex where
  "letter = Cls [Range CHR ''A'' CHR ''Z'', Range CHR ''a'' CHR ''z'']"

text \<open>\<^verbatim>\<open>(\d{2}[A-Za-z]{3}\d{2})\<close>\<close>

definition date_re :: regex where
  "date_re = Group 1 (Seq (Rep 2 digit) (Seq (Rep 3 letter) (Rep 2 digit)))"

text \<open>\<^verbatim>\<open>(\b[A-Za-z\s&-]+(Ltd|PLC|Inc|Corp|Co|Group)\b)\<close>\<close>

definition name_chars :: "citem list" where
  "name_chars = [Range CHR ''A'' CHR ''Z'', Range CHR ''a'' CHR ''z'', Space, Single CHR ''&'', Single CHR ''-'']"

definition suffix_re :: regex where
  "suffix_re = Group 2 (Alt (Lit ''Ltd'') (Alt (Lit ''PLC'') (Alt (Lit ''Inc'')
                 (Alt (Lit ''Corp'') (Alt (Lit ''Co'') (Lit ''Group''))))))"

definition name_re :: regex where
  "name_re = Group 1 (Seq WordB (Seq (PlusCls name_chars) (Seq suffix_re WordB)))"

text \<open>\<^verbatim>\<open>(\d+@\d+\.\d+)\<close> and \<^verbatim>\<open>Dividend\s(\d+\.\d+)\<close>\<close>

definition decimal_re :: regex where
  "decimal_re = Seq (PlusCls [Digit]) (Seq (Lit ''.'') (PlusCls [Digit]))"

definition dividend_re :: regex where
  "dividend_re = Group 1 (Seq (PlusCls [Digit]) (Seq (Lit ''@'') decimal_re))"

definition amount_re :: regex where
  "amount_re = Seq (Lit ''Dividend'') (Seq (Cls [Space]) (Group 1 decimal_re))"

section \<open>\<open>extract_dividend_details\<close>\<close>

text \<open>
  What a path of the directory leads to: a file that \<open>open\<close> rejects, a file that
  \<open>PyPDF2.PdfReader\<close> rejects, or a document given by the extracted text of its pages.
\<close>

datatype pdf_file = Unopenable | NotPdf | Pdf "string list"

type_synonym 'f details = "'f pyval \<times> 'f pyval \<times> 'f pyval \<times> 'f pyval"

text \<open>
  Lines 51 to 67 of the source: the four searches on the text of page 3 and the tuple
  made of them. A match object is always true, so the test of line 56 is that none of the
  four searches returned \<open>None\<close>.
\<close>

definition extract_fields :: "(rat \<Rightarrow> 'f) \<Rightarrow> string \<Rightarrow> pyerror + 'f details option" where
  "extract_fields rnd text =
     (let date_match = re_search date_re text;
          name_match = re_search name_re text;
          dividend_match = re_search dividend_re text;
          amount_match = re_search amount_re text
      in case (date_match, name_match, dividend_match, amount_match) of
           (Some dm, Some nm, Some vm, Some am) \<Rightarrow>
             (let date = group text dm 0;
                  name = group text nm 0;
                  dividend_details = group text vm 1
              in case py_float rnd (group text am 1) of
                   Inl e \<Rightarrow> Inl e
                 | Inr amount \<Rightarrow> Inr (Some (date, name, dividend_details, amount)))
         | _ \<Rightarrow> Inr None)"

text \<open>
  Lines 34 to 48: opening the file and the reader may raise, a document of fewer than three
  pages gives \<open>None\<close>, and otherwise the text of \<open>reader.pages[2]\<close> is searched. Nothing
  in the function catches an exception.
\<close>

definition extract_dividend_details :: "(rat \<Rightarrow> 'f) \<Rightarrow> pdf_file \<Rightarrow> pyerror + 'f details option" where
  "extract_dividend_details rnd f =
     (case f of
        Unopenable \<Rightarrow> Inl OSError
      | NotPdf \<Rightarrow> Inl PdfReadError
      | Pdf pages \<Rightarrow>
          if length pages < 3 then Inr None
          else extract_fields rnd (pages ! 2))"

section \<open>\<open>update_excel\<close>\<close>

text \<open>
  A sheet is the list of its rows, a workbook the list of its titled sheets. The
  destination path holds nothing, a file that \<open>load_workbook\<close> rejects, or a workbook.
\<close>

type_synonym 'f row = "'f pyval list"
type_synonym 'f sheet = "'f row list"
type_synonym 'f workbook = "(string \<times> 'f sheet) list"

datatype 'f xlsx = NotWorkbook | Workbook "'f workbook"

type_synonym 'f dest = "'f xlsx option"

datatype outcome = Returned | Raised pyerror

definition header :: "'f row" where
  "header = [Str ''Date'', Str ''Name'', Str ''Dividend Details'', Str ''Amount'']"

text \<open>\<open>sheet.append(entry)\<close> puts the values of the tuple into a new last row.\<close>

definition row_of :: "'f details \<Rightarrow> 'f row" where
  "row_of entry = (case entry of (a, b, c, d) \<Rightarrow> [a, b, c, d])"

definition sheet_append :: "'f sheet \<Rightarrow> 'f details \<Rightarrow> 'f sheet" where
  "sheet_append sheet entry = sheet @ [row_of entry]"

text \<open>
  The result is how the call ends and what the destination path holds then; only
  \<open>workbook.save\<close> writes to it. A new \<open>Workbook()\<close> has one sheet, its active one,
  which the code titles "Dividends" and gives the header row; a loaded workbook must have
  a sheet of that title, or the subscript raises \<open>KeyError\<close>.
\<close>

definition update_excel :: "'f dest \<Rightarrow> 'f details list \<Rightarrow> outcome \<times> 'f dest" where
  "update_excel dest data =
     (case dest of
        None \<Rightarrow>
          (let sheet = [header];
               sheet = foldl sheet_append sheet data
           in (Returned, Some (Workbook [(''Dividends'', sheet)])))
      | Some NotWorkbook \<Rightarrow> (Raised InvalidFileException, dest)
      | Some (Workbook workbook) \<Rightarrow>
          (case map_of workbook ''Dividends'' of
             None \<Rightarrow> (Raised (KeyError ''Dividends''), dest)
           | Some sheet \<Rightarrow>
               (let sheet = foldl sheet_append sheet data
                in (Returned, Some (Workbook (AList.update ''Dividends'' sheet workbook))))))"

section \<open>\<open>process_pdfs\<close>\<close>

definition endswith :: "string \<Rightarrow> string \<Rightarrow> bool" where
  "endswith s suf = (length suf \<le> length s \<and> drop (length s - length suf) s = suf)"

text \<open>
  The directory is the list \<open>os.listdir\<close> returns, each name with the file it leads to.
  The loop threads \<open>dividend_data\<close>; an exception of \<open>extract_dividend_details\<close> ends it.
\<close>

fun collect :: "(rat \<Rightarrow> 'f) \<Rightarrow> (string \<times> pdf_file) list \<Rightarrow> 'f details list \<Rightarrow> pyerror + 'f details list" where
  "collect rnd [] dividend_data = Inr dividend_data"
| "collect rnd ((filename, f) # rest) dividend_data =
     (if endswith filename ''.pdf'' then
        (case extract_dividend_details rnd f of
           Inl e \<Rightarrow> Inl e
         | Inr None \<Rightarrow> collect rnd rest dividend_data
         | Inr (Some details) \<Rightarrow> collect rnd rest (dividend_data @ [details]))
      else collect rnd rest dividend_data)"

definition process_pdfs :: "(rat \<Rightarrow> 'f) \<Rightarrow> (string \<times> pdf_file) list \<Rightarrow> 'f dest \<Rightarrow> outcome \<times> 'f dest" where
  "process_pdfs rnd directory excel =
     (case collect rnd directory [] of
        Inl e \<Rightarrow> (Raised e, excel)
      | Inr dividend_data \<Rightarrow> update_excel excel dividend_data)"

section \<open>What a pattern matches\<close>

text \<open>
  \<open>occ r t i j\<close>: the characters of \<open>t\<close> from position \<open>i\<close> up to, not including,
  position \<open>j\<close> are an instance of the pattern \<open>r\<close> (read in the context of \<open>t\<close>, which
  decides the word boundaries). This is the meaning of a pattern, stated with no
  reference to the order in which the matcher tries alternatives.
\<close>

primrec occ :: "regex \<Rightarrow> string \<Rightarrow> nat \<Rightarrow> nat \<Rightarrow> bool" where
  "occ (Lit s) t = (\<lambda>i j. j = i + length s \<and> take (length s) (drop i t) = s)"
| "occ (Cls cs) t = (\<lambda>i j. j = Suc i \<and> i < length t \<and> in_class cs (t ! i))"
| "occ (PlusCls cs) t =
     (\<lambda>i j. i < j \<and> j \<le> length t \<and> (\<forall>k. i \<le> k \<and> k < j \<longrightarrow> in_class cs (t ! k)))"
| "occ (Rep n r) t = (occ r t) ^^ n"
| "occ (Seq r s) t = (\<lambda>i j. \<exists>k. occ r t i k \<and> occ s t k j)"
| "occ (Alt r s) t = (\<lambda>i j. occ r t i j \<or> occ s t i j)"
| "occ WordB t = (\<lambda>i j. j = i \<and> word_boundary t i)"
| "occ (Group k r) t = occ r t"

text \<open>The pattern has an instance somewhere in the text.\<close>

definition occurs :: "regex \<Rightarrow> string \<Rightarrow> bool" where
  "occurs r t = (\<exists>i j. i \<le> length t \<and> occ r t i j)"

text \<open>
  The first instance, scanning the text from its beginning: no instance starts further
  left, and none that starts at the same place is longer.
\<close>

definition first_occ :: "regex \<Rightarrow> string \<Rightarrow> nat \<Rightarrow> nat \<Rightarrow> bool" where
  "first_occ r t i j =
     (occ r t i j \<and> i \<le> length t \<and> (\<forall>i' j'. occ r t i' j' \<longrightarrow> i < i' \<or> (i' = i \<and> j' \<le> j)))"

section \<open>The matcher finds exactly the instances\<close>

text \<open>
  The ends that \<open>backtrack\<close> lists from a position are the ends of the instances that
  start there (\<open>backtrack_occ\<close>). So \<open>re_search\<close> returns \<open>None\<close> exactly when the pattern
  has no instance, and a match it returns starts where the leftmost instance starts.
\<close>

lemma takeWhile_len: "k \<le> length (takeWhile P xs) \<longleftrightarrow> k \<le> length xs \<and> (\<forall>n<k. P (xs ! n))"
proof (induction xs arbitrary: k)
  case Nil
  then show ?case by auto
next
  case (Cons x xs)
  show ?case
  proof (cases k)
    case 0
    then show ?thesis by simp
  next
    case (Suc k')
    then show ?thesis using Cons[of k'] 
      by (auto simp: nth_Cons split: nat.splits) 
  qed
qed

lemma take_eq_bound: "take (length s) (drop i t) = s \<Longrightarrow> i \<le> length t \<Longrightarrow> i + length s \<le> length t"
proof -
  assume a: "take (length s) (drop i t) = s" and b: "i \<le> length t"
  have "length (take (length s) (drop i t)) = length s" using a by simp
  then show ?thesis using b by (simp add: min_def split: if_splits)
qed

lemma occ_bounds: "occ r t i j \<Longrightarrow> i \<le> length t \<Longrightarrow> i \<le> j \<and> j \<le> length t"
proof (induction r arbitrary: i j)
  case (Rep n r)
  have "(occ r t ^^ n) i j \<Longrightarrow> i \<le> length t \<Longrightarrow> i \<le> j \<and> j \<le> length t" for i j
  proof (induction n arbitrary: j)
    case 0
    then show ?case by simp
  next
    case (Suc n)
    then show ?case using Rep.IH by (fastforce)
  qed
  then show ?case using Rep.prems by simp
next
  case (Seq r s)
  then show ?case by fastforce
qed (auto simp: take_eq_bound)

lemma backtrack_PlusCls:
  "i \<le> length t \<Longrightarrow> fst ` set (backtrack (PlusCls cs) t (i, c)) = {j. occ (PlusCls cs) t i j}"
proof -
  assume il: "i \<le> length t"
  let ?n = "length (takeWhile (in_class cs) (drop i t))"
  have "fst ` set (backtrack (PlusCls cs) t (i, c)) = {i + k | k. 1 \<le> k \<and> k \<le> ?n}"
    by (auto simp: image_iff) 
  also have "\<dots> = {j. occ (PlusCls cs) t i j}" (is "?A = ?B")
  proof (intro set_eqI iffI)
    fix j assume "j \<in> ?A"
    then obtain k where k: "j = i + k" "1 \<le> k" "k \<le> ?n" by auto
    from k(3) have kl: "k \<le> length (drop i t)" and kp: "\<forall>n<k. in_class cs (drop i t ! n)"
      by (simp_all add: takeWhile_len)
    have "\<forall>m. i \<le> m \<and> m < j \<longrightarrow> in_class cs (t ! m)"
    proof (intro allI impI)
      fix m assume m: "i \<le> m \<and> m < j"
      then have "m - i < k" using k(1) by linarith
      then have "in_class cs (drop i t ! (m - i))" using kp by simp
      then show "in_class cs (t ! m)" using m il by simp
    qed
    then show "j \<in> ?B" using k kl il by auto
  next
    fix j assume "j \<in> ?B"
    then have j: "i < j" "j \<le> length t" "\<forall>k. i \<le> k \<and> k < j \<longrightarrow> in_class cs (t ! k)" by auto
    have "j - i \<le> ?n" using j il by (simp add: takeWhile_len)
    then show "j \<in> ?A" using j(1) by (intro CollectI exI[of _ "j - i"]) simp
  qed
  finally show ?thesis .
qed

lemma iter_occ:
  assumes IH: "\<And>i c. i \<le> length t \<Longrightarrow> fst ` set (backtrack r t (i, c)) = {j. occ r t i j}"
  shows "\<forall>st \<in> set sts. fst st \<le> length t \<Longrightarrow>
     fst ` set (((\<lambda>sts. concat (map (backtrack r t) sts)) ^^ n) sts) =
       {j. \<exists>st \<in> set sts. (occ r t ^^ n) (fst st) j}"
proof (induction n arbitrary: sts)
  case 0
  then show ?case by (auto simp: image_iff)
next
  case (Suc n)
  let ?f = "\<lambda>sts. concat (map (backtrack r t) sts)"
  have b: "\<forall>st \<in> set (?f sts). fst st \<le> length t"
  proof
    fix st assume "st \<in> set (?f sts)"
    then obtain s0 where s0: "s0 \<in> set sts" "st \<in> set (backtrack r t s0)" by auto
    then have "fst st \<in> fst ` set (backtrack r t (fst s0, snd s0))" by simp
    then have "occ r t (fst s0) (fst st)" using IH[of "fst s0" "snd s0"] Suc.prems s0(1) by auto
    then show "fst st \<le> length t" using occ_bounds Suc.prems s0(1) by blast
  qed
  have "fst ` set ((?f ^^ Suc n) sts) = fst ` set ((?f ^^ n) (?f sts))"
    by (simp only: funpow_Suc_right o_apply)
  also have "\<dots> = {j. \<exists>st \<in> set (?f sts). (occ r t ^^ n) (fst st) j}"
    using Suc.IH[OF b] .
  also have "\<dots> = {j. \<exists>st \<in> set sts. (occ r t ^^ Suc n) (fst st) j}" (is "?A = ?B")
  proof (intro set_eqI iffI)
    fix j assume "j \<in> ?A"
    then obtain st s0 where s: "s0 \<in> set sts" "st \<in> set (backtrack r t s0)" "(occ r t ^^ n) (fst st) j"
      by auto
    then have "fst st \<in> fst ` set (backtrack r t (fst s0, snd s0))" by simp
    then have "occ r t (fst s0) (fst st)" using IH[of "fst s0" "snd s0"] Suc.prems s(1) by auto
    then have "(occ r t ^^ Suc n) (fst s0) j" using s(3) by (meson relpowp_Suc_I2)
    then show "j \<in> ?B" using s(1) by blast
  next
    fix j assume "j \<in> ?B"
    then obtain s0 where s: "s0 \<in> set sts" "(occ r t ^^ Suc n) (fst s0) j" by auto
    then obtain k where k: "occ r t (fst s0) k" "(occ r t ^^ n) k j" by (meson relpowp_Suc_E2)
    then have "k \<in> fst ` set (backtrack r t (fst s0, snd s0))"
      using IH[of "fst s0" "snd s0"] Suc.prems s(1) by auto
    then obtain st where "st \<in> set (backtrack r t s0)" "fst st = k" by auto
    then show "j \<in> ?A" using s(1) k(2) by auto
  qed
  finally show ?case .
qed

lemma backtrack_occ: "i \<le> length t \<Longrightarrow> fst ` set (backtrack r t (i, c)) = {j. occ r t i j}"
proof (induction r arbitrary: i c)
  case (Lit s)
  then show ?case by auto
next
  case (Cls cs)
  then show ?case by auto
next
  case (PlusCls cs)
  then show ?case by (rule backtrack_PlusCls)
next
  case (Rep n r)
  show ?case using iter_occ[of t r "[(i, c)]" n] Rep by simp
next
  case (Seq r s)
  show ?case (is "?A = ?B")
  proof (intro set_eqI iffI)
    fix j assume "j \<in> ?A"
    then obtain st c' where s: "st \<in> set (backtrack r t (i, c))" "(j, c') \<in> set (backtrack s t st)"
      by auto
    have "fst st \<in> fst ` set (backtrack r t (i, c))" using s(1) by simp
    then have o1: "occ r t i (fst st)" using Seq.IH(1)[OF Seq.prems] by auto
    then have "fst st \<le> length t" using occ_bounds Seq.prems by blast
    moreover have "j \<in> fst ` set (backtrack s t (fst st, snd st))" using s(2) by (simp add: image_iff) force
    ultimately have "occ s t (fst st) j" using Seq.IH(2) by blast
    then show "j \<in> ?B" using o1 by auto
  next
    fix j assume "j \<in> ?B"
    then obtain k where k: "occ r t i k" "occ s t k j" by auto
    then have "k \<in> fst ` set (backtrack r t (i, c))" using Seq.IH(1)[OF Seq.prems] by auto
    then obtain c' where c': "(k, c') \<in> set (backtrack r t (i, c))" by auto
    have "k \<le> length t" using occ_bounds k(1) Seq.prems by blast
    then have "j \<in> fst ` set (backtrack s t (k, c'))" using Seq.IH(2) k(2) by blast
    then show "j \<in> ?A" using c' by (auto simp: image_iff) 
  qed
next
  case (Alt r s)
  then show ?case by (auto simp: image_Un)
next
  case WordB
  then show ?case by auto
next
  case (Group k r)
  have "map fst (backtrack (Group k r) t (i, c)) = map fst (backtrack r t (i, c))"
    by (simp add: case_prod_beta comp_def)
  then have "fst ` set (backtrack (Group k r) t (i, c)) = fst ` set (backtrack r t (i, c))"
    by (metis set_map)
  then show ?case using Group by simp
qed

lemma backtrack_empty: "i \<le> length t \<Longrightarrow> backtrack r t (i, c) = [] \<longleftrightarrow> (\<forall>j. \<not> occ r t i j)"
  using backtrack_occ[of i t r c] by (metis (no_types, lifting) Collect_empty_eq image_is_empty set_empty)

lemma scan_None: "scan r t is = None \<longleftrightarrow> (\<forall>i \<in> set is. backtrack r t (i, []) = [])"
  by (induction "is") (auto split: list.splits)

lemma scan_Some:
  "scan r t is = Some (i, j, c) \<Longrightarrow>
     \<exists>n<length is. is ! n = i \<and> (\<forall>m<n. backtrack r t (is ! m, []) = []) \<and>
        (\<exists>rest. backtrack r t (i, []) = (j, c) # rest)"
proof (induction "is")
  case Nil
  then show ?case by simp
next
  case (Cons a "is")
  show ?case
  proof (cases "backtrack r t (a, [])")
    case Nil
    with Cons.prems have "scan r t is = Some (i, j, c)" by simp
    from Cons.IH[OF this] obtain n where n: "n < length is" "is ! n = i"
      "\<forall>m<n. backtrack r t (is ! m, []) = []" "\<exists>rest. backtrack r t (i, []) = (j, c) # rest"
      by blast
    have "\<forall>m<Suc n. backtrack r t ((a # is) ! m, []) = []"
      using n(3) Nil by (auto simp: nth_Cons split: nat.splits)
    then show ?thesis using n by (intro exI[of _ "Suc n"]) simp
  next
    case (Cons p ps)
    with Cons.prems show ?thesis by (intro exI[of _ 0]) (auto split: prod.splits)
  qed
qed

lemma re_search_None: "re_search r t = None \<longleftrightarrow> \<not> occurs r t"
proof -
  have "re_search r t = None \<longleftrightarrow> (\<forall>i \<le> length t. backtrack r t (i, []) = [])"
    by (auto simp: re_search_def scan_None simp del: upt_Suc)
  also have "\<dots> \<longleftrightarrow> \<not> occurs r t"
    by (auto simp: occurs_def backtrack_empty)
  finally show ?thesis .
qed

lemma re_search_Some:
  assumes "re_search r t = Some (i, j, c)"
  shows "i \<le> length t" "\<exists>rest. backtrack r t (i, []) = (j, c) # rest" "occ r t i j"
        "occ r t i' j' \<Longrightarrow> i \<le> i'"
proof -
  from assms have "scan r t [0..<Suc (length t)] = Some (i, j, c)" by (simp add: re_search_def)
  from scan_Some[OF this] obtain n where n: "n < Suc (length t)" "[0..<Suc (length t)] ! n = i"
    "\<forall>m<n. backtrack r t ([0..<Suc (length t)] ! m, []) = []"
    "\<exists>rest. backtrack r t (i, []) = (j, c) # rest" by auto
  have ni: "n = i" using n(1,2) by (metis add_0 nth_upt)
  show il: "i \<le> length t" using n(1) ni by simp
  show bt: "\<exists>rest. backtrack r t (i, []) = (j, c) # rest" by (rule n(4))
  then have "j \<in> fst ` set (backtrack r t (i, []))" by force
  then show "occ r t i j" using backtrack_occ[OF il] by blast
  have e: "\<forall>m<i. backtrack r t (m, []) = []"
  proof (intro allI impI)
    fix m assume "m < i"
    then have "m < n" "[0..<Suc (length t)] ! m = m" using ni n(1) by (simp_all del: upt_Suc)
    then show "backtrack r t (m, []) = []" using n(3) by metis
  qed
  show "i \<le> i'" if "occ r t i' j'"
  proof (rule ccontr)
    assume "\<not> i \<le> i'"
    then have "i' < i" by simp
    then have "backtrack r t (i', []) = []" "i' \<le> length t" using e il by auto
    then show False using that backtrack_empty by blast
  qed
qed

section \<open>Greedy matching: the ends come longest first\<close>

text \<open>
  For each of the four patterns the ends that \<open>backtrack\<close> lists from a position come in
  strictly descending order, so the match kept, the head of the list, is the longest
  instance starting there. A digit run followed by \<open>@\<close> or by a point can only end where
  the digits end (\<open>plus_then\<close>).
\<close>

lemma len1_sorted: "length xs \<le> Suc 0 \<Longrightarrow> sorted_wrt P xs"
  by (cases xs) auto

lemma det_Lit: "length (backtrack (Lit s) t st) \<le> Suc 0"
  by (cases st) simp

lemma det_Cls: "length (backtrack (Cls cs) t st) \<le> Suc 0"
  by (cases st) simp

lemma det_WordB: "length (backtrack WordB t st) \<le> Suc 0"
  by (cases st) simp

lemma concat_map_len1:
  assumes "length xs \<le> Suc 0" "\<And>x. length (f x) \<le> Suc 0"
  shows "length (concat (map f xs)) \<le> Suc 0"
  using assms by (cases xs) auto

lemma det_Seq:
  assumes "\<And>st. length (backtrack r t st) \<le> Suc 0" "\<And>st. length (backtrack s t st) \<le> Suc 0"
  shows "length (backtrack (Seq r s) t st) \<le> Suc 0"
  using concat_map_len1[of "backtrack r t st" "backtrack s t"] assms by simp

lemma det_Rep:
  assumes "\<And>st. length (backtrack r t st) \<le> Suc 0"
  shows "length (backtrack (Rep n r) t st) \<le> Suc 0"
proof -
  have "length sts \<le> Suc 0 \<Longrightarrow> length (((\<lambda>sts. concat (map (backtrack r t) sts)) ^^ n) sts) \<le> Suc 0" for sts
  proof (induction n arbitrary: sts)
    case 0
    then show ?case by simp
  next
    case (Suc n)
    have "length (concat (map (backtrack r t) sts)) \<le> Suc 0"
      using concat_map_len1[OF Suc.prems, of "backtrack r t"] assms by simp
    from Suc.IH[OF this] show ?case by (simp only: funpow_Suc_right o_apply)
  qed
  then show ?thesis by simp
qed

lemma ends_Group: "map fst (backtrack (Group k r) t (i, c)) = map fst (backtrack r t (i, c))"
  by (simp add: case_prod_beta comp_def)

lemma desc_Group:
  "sorted_wrt (>) (map fst (backtrack r t (i, c))) \<Longrightarrow>
   sorted_wrt (>) (map fst (backtrack (Group k r) t (i, c)))"
  by (simp only: ends_Group)

lemma desc_upt: "sorted_wrt (>) (map (\<lambda>k. i + k) (rev [a..<b]))"
  by (induction b) (auto simp: sorted_wrt_append)

lemma desc_PlusCls: "sorted_wrt (>) (map fst (backtrack (PlusCls cs) t (i, c)))"
proof -
  have "map fst (backtrack (PlusCls cs) t (i, c)) =
        map (\<lambda>k. i + k) (rev [1..<Suc (length (takeWhile (in_class cs) (drop i t)))])"
    by (simp add: comp_def del: upt_Suc)
  then show ?thesis by (simp only: desc_upt)
qed

lemma desc_Seq_det:
  assumes "length (backtrack r t st) \<le> Suc 0"
    and "\<And>st'. sorted_wrt (>) (map fst (backtrack s t st'))"
  shows "sorted_wrt (>) (map fst (backtrack (Seq r s) t st))"
proof (cases "backtrack r t st")
  case Nil
  then show ?thesis by simp
next
  case (Cons a as)
  with assms(1) have "as = []" by simp
  with Cons assms(2)[of a] show ?thesis by simp
qed

lemma takeWhile_nth: "k < length (takeWhile P xs) \<Longrightarrow> P (xs ! k)"
  using takeWhile_len[of "Suc k" P xs] by auto

lemma plus_then:
  assumes rej: "\<And>k c. k < length t \<Longrightarrow> in_class cs (t ! k) \<Longrightarrow> backtrack s t (k, c) = []"
  shows "backtrack (Seq (PlusCls cs) s) t (i, c) =
     (let n = length (takeWhile (in_class cs) (drop i t))
      in if n = 0 then [] else backtrack s t (i + n, c))"
proof -
  let ?n = "length (takeWhile (in_class cs) (drop i t))"
  have e: "backtrack s t (i + k, c) = []" if "k < ?n" for k
  proof -
    have "?n \<le> length (drop i t)" by (rule length_takeWhile_le)
    then have kl: "i + k < length t" using that by simp
    have "in_class cs (drop i t ! k)" using that by (rule takeWhile_nth)
    then have "in_class cs (t ! (i + k))" using kl by simp
    then show ?thesis using rej kl by blast
  qed
  have z: "concat (map (backtrack s t) (map (\<lambda>k. (i + k, c)) (rev [a..<b]))) = []" if "b \<le> ?n" for a b
    using that e by (induction b) auto
  show ?thesis
  proof (cases "?n = 0")
    case True
    then show ?thesis by simp
  next
    case False
    then have "1 \<le> ?n" by (cases "?n") simp_all
    then have u: "[1..<Suc ?n] = [1..<?n] @ [?n]" by simp
    have "backtrack (Seq (PlusCls cs) s) t (i, c) =
       concat (map (backtrack s t) (map (\<lambda>k. (i + k, c)) (rev [1..<Suc ?n])))"
      by (simp del: upt_Suc)
    also have "\<dots> = backtrack s t (i + ?n, c) @
       concat (map (backtrack s t) (map (\<lambda>k. (i + k, c)) (rev [1..<?n])))"
      by (simp only: u rev_append rev.simps append_Nil map_append list.map concat_append concat.simps append_Nil2)
    also have "\<dots> = backtrack s t (i + ?n, c)"
      using z[of ?n 1] by simp
    finally show ?thesis using False by (simp only: Let_def if_False)
  qed
qed

lemma desc_plus_then:
  assumes rej: "\<And>k c. k < length t \<Longrightarrow> in_class cs (t ! k) \<Longrightarrow> backtrack s t (k, c) = []"
    and "\<And>st'. sorted_wrt (>) (map fst (backtrack s t st'))"
  shows "sorted_wrt (>) (map fst (backtrack (Seq (PlusCls cs) s) t (i, c)))"
  using assms(2) by (simp only: plus_then[OF rej] Let_def split: if_splits) simp

lemma reject_Lit:
  assumes "\<not> in_class cs x"
  shows "k < length t \<Longrightarrow> in_class cs (t ! k) \<Longrightarrow> backtrack (Seq (Lit (x # xs)) r) t (k, c) = []"
proof -
  assume k: "k < length t" and i: "in_class cs (t ! k)"
  have "take (length (x # xs)) (drop k t) \<noteq> x # xs"
  proof
    assume "take (length (x # xs)) (drop k t) = x # xs"
    then have "hd (take (length (x # xs)) (drop k t)) = x" by simp
    then have "t ! k = x" using k by (simp add: hd_drop_conv_nth)
    then show False using i assms by simp
  qed
  then show ?thesis by simp
qed

lemma desc_decimal_re: "sorted_wrt (>) (map fst (backtrack decimal_re t st))"
proof -
  obtain i c where st: "st = (i, c)" by (cases st)
  have n: "\<not> in_class [Digit] CHR ''.''" by (simp add: in_class_def is_decimal_def code_def)
  have d: "sorted_wrt (>) (map fst (backtrack (Seq (Lit ''.'') (PlusCls [Digit])) t st'))" for st'
    by (rule desc_Seq_det[OF det_Lit]) (metis desc_PlusCls surj_pair)
  show ?thesis unfolding decimal_re_def st
    by (rule desc_plus_then[OF reject_Lit[OF n] d])
qed

lemma desc_dividend_re: "sorted_wrt (>) (map fst (backtrack dividend_re t (i, c)))"
proof -
  have n: "\<not> in_class [Digit] CHR ''@''" by (simp add: in_class_def is_decimal_def code_def)
  have d: "sorted_wrt (>) (map fst (backtrack (Seq (Lit ''@'') decimal_re) t st'))" for st'
    by (rule desc_Seq_det[OF det_Lit desc_decimal_re])
  show ?thesis unfolding dividend_re_def
    by (rule desc_Group, rule desc_plus_then[OF reject_Lit[OF n] d])
qed

lemma desc_amount_re: "sorted_wrt (>) (map fst (backtrack amount_re t (i, c)))"
proof -
  have g: "sorted_wrt (>) (map fst (backtrack (Group 1 decimal_re) t st'))" for st'
    by (cases st') (simp only: desc_Group[OF desc_decimal_re])
  have d: "sorted_wrt (>) (map fst (backtrack (Seq (Cls [Space]) (Group 1 decimal_re)) t st'))" for st'
    by (rule desc_Seq_det[OF det_Cls g])
  show ?thesis unfolding amount_re_def
    by (rule desc_Seq_det[OF det_Lit d])
qed

lemma desc_date_re: "sorted_wrt (>) (map fst (backtrack date_re t (i, c)))"
proof -
  have "length (backtrack (Seq (Rep 2 digit) (Seq (Rep 3 letter) (Rep 2 digit))) t st) \<le> Suc 0" for st
    unfolding digit_def letter_def
    by (intro det_Seq det_Rep det_Cls)
  then have "sorted_wrt (>) (map fst (backtrack (Seq (Rep 2 digit) (Seq (Rep 3 letter) (Rep 2 digit))) t (i, c)))"
    by (intro len1_sorted) simp
  then show ?thesis unfolding date_re_def by (rule desc_Group)
qed

section \<open>The issuer-name pattern\<close>

text \<open>
  After a run of name characters the suffix can begin at several places. A suffix that
  begins later also ends later: it cannot end inside an earlier one, where there is no
  word boundary, and none of the six suffixes is the tail of another.
\<close>

lemma take_Suc_drop_eq_Cons:
  "take (Suc n) (drop k t) = x # xs \<longleftrightarrow> k < length t \<and> t ! k = x \<and> take n (drop (Suc k) t) = xs"
proof (cases "k < length t")
  case True
  then have "drop k t = t ! k # drop (Suc k) t" by (simp add: Cons_nth_drop_Suc)
  then show ?thesis using True by simp
next
  case False
  then show ?thesis by simp
qed

lemma suffix_occ:
  "occ suffix_re t k e \<longleftrightarrow>
     (\<exists>s \<in> set [''Ltd'', ''PLC'', ''Inc'', ''Corp'', ''Co'', ''Group''].
        e = k + length s \<and> take (length s) (drop k t) = s)"
  by (auto simp: suffix_re_def)

lemma suffix_words:
  "s \<in> set [''Ltd'', ''PLC'', ''Inc'', ''Corp'', ''Co'', ''Group''] \<Longrightarrow> n < length s \<Longrightarrow> is_word (s ! n)"
  by (auto simp: is_word_def code_def nth_Cons split: nat.splits)

lemma suffix_not_tail:
  assumes "s1 \<in> set [''Ltd'', ''PLC'', ''Inc'', ''Corp'', ''Co'', ''Group'']"
    "s2 \<in> set [''Ltd'', ''PLC'', ''Inc'', ''Corp'', ''Co'', ''Group'']"
    "s1 = drop d s2"
  shows "d = 0"
proof (rule ccontr)
  assume "d \<noteq> 0"
  then have "d = Suc 0 \<or> d = Suc (Suc 0) \<or> d = Suc (Suc (Suc 0)) \<or> d = Suc (Suc (Suc (Suc 0))) \<or> 5 \<le> d"
    by arith
  then show False using assms by (elim disjE) auto
qed

lemma desc_suffix_re: "sorted_wrt (>) (map fst (backtrack suffix_re t (k, c)))"
  unfolding suffix_re_def
  by (simp only: ends_Group) (auto simp: take_Suc_drop_eq_Cons)

lemma backtrack_Seq: "backtrack (Seq r s) t st = concat (map (backtrack s t) (backtrack r t st))"
  by simp

lemma ends_Seq_WordB:
  "map fst (backtrack (Seq r WordB) t st) = filter (word_boundary t) (map fst (backtrack r t st))"
proof -
  have "map fst (concat (map (backtrack WordB t) xs)) = filter (word_boundary t) (map fst xs)" for xs
    by (induction xs) auto
  then show ?thesis by simp
qed

lemma desc_suffix_boundary: "sorted_wrt (>) (map fst (backtrack (Seq suffix_re WordB) t st))"
proof -
  obtain k c where "st = (k, c)" by (cases st)
  then show ?thesis
    by (simp only: ends_Seq_WordB sorted_wrt_filter desc_suffix_re)
qed

lemma lit_nth:
  assumes "take (length s) (drop k t) = s" "n < length s"
  shows "k + n < length t" "t ! (k + n) = s ! n"
proof -
  have "length (take (length s) (drop k t)) = length s" using assms(1) by simp
  then have "length s \<le> length t - k" by (simp add: min_def split: if_splits)
  then show kn: "k + n < length t" using assms(2) by linarith
  have "s ! n = take (length s) (drop k t) ! n" using assms(1) by simp
  also have "\<dots> = t ! (k + n)" using assms(2) kn by simp
  finally show "t ! (k + n) = s ! n" by simp
qed

lemma suffix_boundary_occ:
  "occ (Seq suffix_re WordB) t k e \<longleftrightarrow>
     (\<exists>s \<in> set [''Ltd'', ''PLC'', ''Inc'', ''Corp'', ''Co'', ''Group''].
        e = k + length s \<and> take (length s) (drop k t) = s) \<and> word_boundary t e"
proof -
  have "occ (Seq suffix_re WordB) t k e \<longleftrightarrow> occ suffix_re t k e \<and> word_boundary t e"
    by auto
  then show ?thesis by (simp only: suffix_occ)
qed

lemma suffix_later_ends_later:
  assumes s1: "s1 \<in> set [''Ltd'', ''PLC'', ''Inc'', ''Corp'', ''Co'', ''Group'']"
    and s2: "s2 \<in> set [''Ltd'', ''PLC'', ''Inc'', ''Corp'', ''Co'', ''Group'']"
    and l1: "take (length s1) (drop k1 t) = s1"
    and l2: "take (length s2) (drop k2 t) = s2"
    and k: "k2 < k1"
    and wb: "word_boundary t (k1 + length s1)"
  shows "k2 + length s2 < k1 + length s1"
proof (rule ccontr)
  assume "\<not> k2 + length s2 < k1 + length s1"
  then have le: "k1 + length s1 \<le> k2 + length s2" by simp
  have n1: "0 < length s1" using s1 by auto
  show False
  proof (cases "k1 + length s1 = k2 + length s2")
    case True
    have "s1 = drop (k1 - k2) s2"
    proof (rule nth_equalityI)
      show "length s1 = length (drop (k1 - k2) s2)" using True k by simp
    next
      fix n assume n: "n < length s1"
      then have n2: "k1 - k2 + n < length s2" using True k by linarith
      have "s1 ! n = t ! (k1 + n)" using lit_nth(2)[OF l1 n] by simp
      also have "\<dots> = t ! (k2 + (k1 - k2 + n))" using k by simp
      also have "\<dots> = s2 ! (k1 - k2 + n)" using lit_nth(2)[OF l2 n2] .
      finally show "s1 ! n = drop (k1 - k2) s2 ! n" using n2 by simp
    qed
    from suffix_not_tail[OF s1 s2 this] k show False by simp
  next
    case False
    with le have lt: "k1 + length s1 < k2 + length s2" by simp
    let ?e = "k1 + length s1"
    have a: "?e - k2 < length s2" "?e - 1 - k2 < length s2" using lt k n1 by linarith+
    have "?e < length t" "is_word (t ! ?e)"
      using lit_nth[OF l2 a(1)] suffix_words[OF s2 a(1)] k by simp_all
    moreover have "is_word (t ! (?e - 1))"
    proof -
      have "k2 + (?e - 1 - k2) = ?e - 1" using k n1 by linarith
      then show ?thesis using lit_nth(2)[OF l2 a(2)] suffix_words[OF s2 a(2)] by simp
    qed
    ultimately have "\<not> word_boundary t ?e" using n1 by (simp add: word_boundary_def)
    then show False using wb by simp
  qed
qed

lemma desc_concat:
  assumes "sorted_wrt (>) (map fst sts)"
    and "\<And>st. st \<in> set sts \<Longrightarrow> sorted_wrt (>) (map fst (f st))"
    and "\<And>st1 st2 e1 e2. st1 \<in> set sts \<Longrightarrow> st2 \<in> set sts \<Longrightarrow> fst st2 < fst st1 \<Longrightarrow>
           e1 \<in> fst ` set (f st1) \<Longrightarrow> e2 \<in> fst ` set (f st2) \<Longrightarrow> e2 < e1"
  shows "sorted_wrt (>) (map fst (concat (map f sts)))"
  using assms
proof (induction sts)
  case Nil
  then show ?case by simp
next
  case (Cons a sts)
  have 1: "sorted_wrt (>) (map fst (f a))" using Cons.prems(2) by simp
  have 2: "sorted_wrt (>) (map fst (concat (map f sts)))"
  proof (rule Cons.IH)
    show "sorted_wrt (>) (map fst sts)" using Cons.prems(1) by simp
  next
    fix st assume "st \<in> set sts"
    then show "sorted_wrt (>) (map fst (f st))" using Cons.prems(2) by simp
  next
    fix st1 st2 e1 e2
    assume "st1 \<in> set sts" "st2 \<in> set sts" "fst st2 < fst st1"
           "e1 \<in> fst ` set (f st1)" "e2 \<in> fst ` set (f st2)"
    then show "e2 < e1" using Cons.prems(3)[of st1 st2 e1 e2] by simp
  qed
  have 3: "\<forall>x \<in> set (map fst (f a)). \<forall>y \<in> set (map fst (concat (map f sts))). y < x"
  proof (intro ballI)
    fix x y assume x: "x \<in> set (map fst (f a))" and y: "y \<in> set (map fst (concat (map f sts)))"
    from y obtain st2 where st2: "st2 \<in> set sts" "y \<in> fst ` set (f st2)" by auto
    then have "fst st2 < fst a" using Cons.prems(1) by auto
    then show "y < x" using Cons.prems(3)[of a st2 x y] st2 x by simp
  qed
  show ?case using 1 2 3 by (simp add: sorted_wrt_append)
qed

lemma desc_name_body:
  "sorted_wrt (>) (map fst (backtrack (Seq (PlusCls name_chars) (Seq suffix_re WordB)) t (i, c)))"
proof -
  let ?n = "length (takeWhile (in_class name_chars) (drop i t))"
  let ?sts = "map (\<lambda>k. (i + k, c)) (rev [1..<Suc ?n])"
  let ?s = "Seq suffix_re WordB"
  have sts: "backtrack (PlusCls name_chars) t (i, c) = ?sts" by (simp del: upt_Suc)
  have b: "fst st \<le> length t" if "st \<in> set ?sts" for st
  proof -
    have "?n \<le> length t - i" using length_takeWhile_le[of "in_class name_chars" "drop i t"] by simp
    then show ?thesis using that by (auto simp del: upt_Suc)
  qed
  have "sorted_wrt (>) (map fst (concat (map (backtrack ?s t) ?sts)))"
  proof (rule desc_concat)
    show "sorted_wrt (>) (map fst ?sts)" using desc_PlusCls[of name_chars t i c] by (simp only: sts)
  next
    fix st show "sorted_wrt (>) (map fst (backtrack ?s t st))" by (rule desc_suffix_boundary)
  next
    fix st1 st2 e1 e2
    assume a: "st1 \<in> set ?sts" "st2 \<in> set ?sts" "fst st2 < fst st1"
      "e1 \<in> fst ` set (backtrack ?s t st1)" "e2 \<in> fst ` set (backtrack ?s t st2)"
    have "e1 \<in> fst ` set (backtrack ?s t (fst st1, snd st1))" using a(4) by simp
    then have o1: "occ ?s t (fst st1) e1" using backtrack_occ[OF b[OF a(1)]] by blast
    have "e2 \<in> fst ` set (backtrack ?s t (fst st2, snd st2))" using a(5) by simp
    then have o2: "occ ?s t (fst st2) e2" using backtrack_occ[OF b[OF a(2)]] by blast
    from o1 obtain s1 where s1: "s1 \<in> set [''Ltd'', ''PLC'', ''Inc'', ''Corp'', ''Co'', ''Group'']"
      "e1 = fst st1 + length s1" "take (length s1) (drop (fst st1) t) = s1" "word_boundary t e1"
      unfolding suffix_boundary_occ by blast
    from o2 obtain s2 where s2: "s2 \<in> set [''Ltd'', ''PLC'', ''Inc'', ''Corp'', ''Co'', ''Group'']"
      "e2 = fst st2 + length s2" "take (length s2) (drop (fst st2) t) = s2"
      unfolding suffix_boundary_occ by blast
    show "e2 < e1"
      using suffix_later_ends_later[OF s1(1) s2(1) s1(3) s2(3) a(3)] s1(2,4) s2(2) by simp
  qed
  moreover have "backtrack (Seq (PlusCls name_chars) ?s) t (i, c) =
      concat (map (backtrack ?s t) (backtrack (PlusCls name_chars) t (i, c)))"
    by (rule backtrack_Seq)
  ultimately show ?thesis by (simp only: sts)
qed

lemma desc_name_re: "sorted_wrt (>) (map fst (backtrack name_re t (i, c)))"
proof -
  have "sorted_wrt (>) (map fst (backtrack (Seq (PlusCls name_chars) (Seq suffix_re WordB)) t st'))" for st'
    by (cases st') (simp only: desc_name_body)
  then have "sorted_wrt (>) (map fst (backtrack (Seq WordB (Seq (PlusCls name_chars) (Seq suffix_re WordB))) t (i, c)))"
    by (rule desc_Seq_det[OF det_WordB])
  then show ?thesis unfolding name_re_def by (rule desc_Group)
qed

section \<open>The search returns the first instance\<close>

text \<open>
  With the ends in descending order, the match of \<open>re_search\<close> is the first instance, and
  the first instance is unique.
\<close>

lemma head_is_longest:
  assumes "sorted_wrt (>) (map fst (backtrack r t (i, c)))" "backtrack r t (i, c) = (j, c') # rest"
    "i \<le> length t" "occ r t i j'"
  shows "j' \<le> j"
proof -
  have "j' \<in> fst ` set (backtrack r t (i, c))" using backtrack_occ[OF assms(3)] assms(4) by blast
  then have "j' = j \<or> j' \<in> fst ` set rest" using assms(2) by auto
  moreover have "\<forall>x \<in> set (map fst rest). x < j" using assms(1,2) by simp
  ultimately show ?thesis by auto
qed

lemma search_first_occ:
  assumes d: "\<And>i c. sorted_wrt (>) (map fst (backtrack r t (i, c)))"
    and s: "re_search r t = Some (i, j, c)"
  shows "first_occ r t i j"
proof -
  note rs = re_search_Some[OF s]
  from rs(2) obtain rest where b: "backtrack r t (i, []) = (j, c) # rest" by blast
  have "i < i' \<or> (i' = i \<and> j' \<le> j)" if o: "occ r t i' j'" for i' j'
  proof (cases "i < i'")
    case True
    then show ?thesis by simp
  next
    case False
    with rs(4)[OF o] have e: "i' = i" by simp
    with head_is_longest[OF d b rs(1)] o show ?thesis by simp
  qed
  then show ?thesis using rs(1,3) by (simp add: first_occ_def)
qed

lemma first_occ_unique:
  assumes "first_occ r t i j" "first_occ r t i' j'"
  shows "i' = i \<and> j' = j"
proof -
  from assms have a: "occ r t i j" "occ r t i' j'"
    and b: "\<And>a b. occ r t a b \<Longrightarrow> i < a \<or> (a = i \<and> b \<le> j)"
    and c: "\<And>a b. occ r t a b \<Longrightarrow> i' < a \<or> (a = i' \<and> b \<le> j')"
    by (auto simp: first_occ_def)
  from b[OF a(2)] c[OF a(1)] show ?thesis by auto
qed

lemma first_occ_search:
  assumes d: "\<And>i c. sorted_wrt (>) (map fst (backtrack r t (i, c)))"
    and f: "first_occ r t i j"
  shows "\<exists>c. re_search r t = Some (i, j, c)"
proof -
  from f have "occurs r t" by (auto simp: first_occ_def occurs_def)
  then obtain i' j' c where s: "re_search r t = Some (i', j', c)"
    using re_search_None[of r t] by (cases "re_search r t") auto
  from first_occ_unique[OF f search_first_occ[OF d s]] s show ?thesis by simp
qed

lemmas first_occ_date = first_occ_search[OF desc_date_re]
lemmas first_occ_name = first_occ_search[OF desc_name_re]
lemmas first_occ_dividend = first_occ_search[OF desc_dividend_re]
lemmas first_occ_amount = first_occ_search[OF desc_amount_re]

lemma occurs_first_occ:
  assumes d: "\<And>i c. sorted_wrt (>) (map fst (backtrack r t (i, c)))" and "occurs r t"
  shows "\<exists>i j. first_occ r t i j"
proof -
  obtain i j c where s: "re_search r t = Some (i, j, c)"
    using re_search_None[of r t] assms(2) by (cases "re_search r t") auto
  from search_first_occ[OF d s] show ?thesis by blast
qed

section \<open>The shape of an amount\<close>

text \<open>
  An instance of the amount pattern is \<open>Dividend\<close>, one white-space character, and a
  numeral of digits, a point and digits, the part that group 1 captures and \<open>float\<close>
  converts.
\<close>

lemma slice_append: "i \<le> k \<Longrightarrow> k \<le> j \<Longrightarrow> slice t i j = slice t i k @ slice t k j"
proof -
  assume a: "i \<le> k" "k \<le> j"
  then have "j - i = (k - i) + (j - k)" by simp
  then have "take (j - i) (drop i t) = take (k - i) (drop i t) @ take (j - k) (drop (k - i) (drop i t))"
    by (simp only: take_add)
  then show ?thesis using a by (simp add: slice_def)
qed


lemma slice_Lit: "occ (Lit s) t i j \<Longrightarrow> slice t i j = s"
  by (simp add: slice_def)

lemma slice_Cls: "occ (Cls cs) t i j \<Longrightarrow> slice t i j = [t ! i] \<and> in_class cs (t ! i)"
  by (auto simp: slice_def take_Suc_conv_app_nth)

lemma slice_PlusCls:
  assumes "occ (PlusCls cs) t i j"
  shows "slice t i j \<noteq> [] \<and> list_all (in_class cs) (slice t i j)"
proof -
  from assms have a: "i < j" "j \<le> length t" "\<forall>k. i \<le> k \<and> k < j \<longrightarrow> in_class cs (t ! k)"
    by auto
  have l: "length (slice t i j) = j - i" using a by (simp add: slice_def)
  have "in_class cs (slice t i j ! n)" if "n < j - i" for n
  proof -
    have "slice t i j ! n = t ! (i + n)" using that a by (simp add: slice_def)
    then show ?thesis using a(3) that by simp
  qed
  then have "list_all (in_class cs) (slice t i j)" using l by (simp add: list_all_length)
  moreover have "slice t i j \<noteq> []" using l a(1) by auto
  ultimately show ?thesis by simp
qed

lemma decimal_shape:
  assumes "occ decimal_re t i j" "i \<le> length t"
  shows "\<exists>ip fp. slice t i j = ip @ ''.'' @ fp \<and> ip \<noteq> [] \<and> fp \<noteq> [] \<and>
           list_all is_decimal ip \<and> list_all is_decimal fp"
proof -
  from assms(1) obtain a b where o: "occ (PlusCls [Digit]) t i a" "occ (Lit ''.'') t a b"
    "occ (PlusCls [Digit]) t b j"
    by (auto simp: decimal_re_def)
  have ia: "i \<le> a \<and> a \<le> length t" using occ_bounds[OF o(1) assms(2)] .
  then have ab: "a \<le> b \<and> b \<le> length t" using occ_bounds[OF o(2)] by simp
  then have bj: "b \<le> j \<and> j \<le> length t" using occ_bounds[OF o(3)] by simp
  have d: "in_class [Digit] = is_decimal" by (auto simp: in_class_def)
  have "slice t i j = slice t i a @ slice t a b @ slice t b j"
    using slice_append[of i a j t] slice_append[of a b j t] ia ab bj by simp
  then have "slice t i j = slice t i a @ ''.'' @ slice t b j" using slice_Lit[OF o(2)] by simp
  then show ?thesis using slice_PlusCls[OF o(1)] slice_PlusCls[OF o(3)] d by auto
qed

lemma amount_shape:
  assumes "occ amount_re t i j" "i \<le> length t"
  shows "\<exists>ws ip fp. slice t i j = ''Dividend'' @ ws # ip @ ''.'' @ fp \<and>
           slice t (i + 9) j = ip @ ''.'' @ fp \<and> is_space ws \<and> ip \<noteq> [] \<and> fp \<noteq> [] \<and>
           list_all is_decimal ip \<and> list_all is_decimal fp"
proof -
  from assms(1) obtain a b where o: "occ (Lit ''Dividend'') t i a" "occ (Cls [Space]) t a b"
    "occ decimal_re t b j"
    by (auto simp: amount_re_def)
  have a: "a = i + 8" using o(1) by simp
  have b: "b = i + 9" using o(2) a by simp
  have ia: "i \<le> a \<and> a \<le> length t" using occ_bounds[OF o(1) assms(2)] .
  then have ab: "a \<le> b \<and> b \<le> length t" using occ_bounds[OF o(2)] by simp
  then have bj: "b \<le> j \<and> j \<le> length t" using occ_bounds[OF o(3)] by simp
  from decimal_shape[OF o(3)] ab obtain ip fp where d: "slice t b j = ip @ ''.'' @ fp"
    "ip \<noteq> []" "fp \<noteq> []" "list_all is_decimal ip" "list_all is_decimal fp" by auto
  have "slice t i j = slice t i a @ slice t a b @ slice t b j"
    using slice_append[of i a j t] slice_append[of a b j t] ia ab bj by simp
  then have "slice t i j = ''Dividend'' @ (t ! a) # ip @ ''.'' @ fp"
    using slice_Lit[OF o(1)] slice_Cls[OF o(2)] d(1) by simp
  moreover have "is_space (t ! a)" using slice_Cls[OF o(2)] by (simp add: in_class_def)
  ultimately show ?thesis using d b by auto
qed

lemma decimal_value_parts:
  assumes "list_all is_decimal ip"
  shows "decimal_value (ip @ ''.'' @ fp) =
           of_nat (nat_of_digits ip) + of_nat (nat_of_digits fp) / 10 ^ length fp"
proof -
  have "\<forall>c \<in> set ip. c \<noteq> CHR ''.''" using assms by (auto simp: list_all_iff is_decimal_def code_def)
  then have "takeWhile (\<lambda>c. c \<noteq> CHR ''.'') (ip @ CHR ''.'' # fp) = ip"
    by (simp add: takeWhile_append2)
  then show ?thesis by (simp add: decimal_value_def Let_def)
qed

section \<open>The store and the loop\<close>

text \<open>
  Closed forms of \<open>update_excel\<close> and of the loop of \<open>process_pdfs\<close>, and the groups of
  the matches: group 1 always takes part, so \<open>float\<close> never receives \<open>None\<close>.
\<close>

lemma foldl_sheet_append: "foldl sheet_append sheet data = sheet @ map row_of data"
  by (induction data arbitrary: sheet) (simp_all add: sheet_append_def)

lemma update_excel_new:
  "update_excel None data = (Returned, Some (Workbook [(''Dividends'', header # map row_of data)]))"
  by (simp add: update_excel_def foldl_sheet_append)

lemma update_excel_existing:
  "map_of workbook ''Dividends'' = Some sheet \<Longrightarrow>
   update_excel (Some (Workbook workbook)) data =
     (Returned, Some (Workbook (AList.update ''Dividends'' (sheet @ map row_of data) workbook)))"
  by (simp add: update_excel_def foldl_sheet_append)

lemma update_excel_no_sheet:
  "map_of workbook ''Dividends'' = None \<Longrightarrow>
   update_excel (Some (Workbook workbook)) data = (Raised (KeyError ''Dividends''), Some (Workbook workbook))"
  by (simp add: update_excel_def)

lemma collect_acc: "collect rnd directory acc = (case collect rnd directory [] of Inl e \<Rightarrow> Inl e | Inr data \<Rightarrow> Inr (acc @ data))"
proof (induction directory arbitrary: acc)
  case Nil
  then show ?case by simp
next
  case (Cons x directory)
  obtain filename f where x: "x = (filename, f)" by (cases x)
  show ?case
    using Cons[of "acc @ [d]" for d] Cons[of "[d]" for d] Cons[of acc]
    by (auto simp: x split: sum.splits option.splits)
qed

lemma collect_append:
  "collect rnd (pre @ post) acc =
     (case collect rnd pre acc of Inl e \<Rightarrow> Inl e | Inr data \<Rightarrow> collect rnd post data)"
proof (induction pre arbitrary: acc)
  case Nil
  then show ?case by simp
next
  case (Cons x pre)
  obtain filename f where x: "x = (filename, f)" by (cases x)
  show ?case by (simp add: x Cons split: sum.splits option.splits)
qed

lemma group_amount:
  assumes "re_search amount_re t = Some (i, j, c)"
  shows "map_of c 1 = Some (i + 9, j)"
proof -
  from re_search_Some(2)[OF assms] obtain rest where
    "backtrack amount_re t (i, []) = (j, c) # rest" by blast
  then have "(j, c) \<in> set (backtrack amount_re t (i, []))" by simp
  then show ?thesis
    by (auto simp: amount_re_def split: if_splits)
qed

lemma group_dividend:
  assumes "re_search dividend_re t = Some (i, j, c)"
  shows "map_of c 1 = Some (i, j)"
proof -
  from re_search_Some(2)[OF assms] obtain rest where
    "backtrack dividend_re t (i, []) = (j, c) # rest" by blast
  then have "(j, c) \<in> set (backtrack dividend_re t (i, []))" by simp
  then show ?thesis
    by (auto simp: dividend_re_def split: if_splits)
qed

lemma extract_fields_Some:
  assumes "re_search date_re t = Some (i1, j1, c1)" "re_search name_re t = Some (i2, j2, c2)"
    "re_search dividend_re t = Some (i3, j3, c3)" "re_search amount_re t = Some (i4, j4, c4)"
  shows "extract_fields rnd t =
    Inr (Some (Str (slice t i1 j1), Str (slice t i2 j2), Str (slice t i3 j3),
               Float (rnd (decimal_value (slice t (i4 + 9) j4)))))"
  using assms group_amount[OF assms(4)] group_dividend[OF assms(3)]
  by (simp add: extract_fields_def group_def py_float_def)

lemma extract_fields_None:
  "re_search date_re t = None \<or> re_search name_re t = None \<or>
   re_search dividend_re t = None \<or> re_search amount_re t = None \<Longrightarrow>
   extract_fields rnd t = Inr None"
  by (auto simp: extract_fields_def split: option.splits)



lemma map_of_update_same: "map_of (AList.update k v al) k = Some v"
  by (simp add: update_conv')




lemma collect_skip:
  assumes "extract_dividend_details rnd f = Inr None"
  shows "collect rnd (pre @ (filename, f) # post) acc = collect rnd (pre @ post) acc"
  using assms by (simp add: collect_append split: sum.splits)

lemma collect_all_skipped:
  assumes "\<forall>(filename, f) \<in> set directory.
             endswith filename ''.pdf'' \<longrightarrow> extract_dividend_details rnd f = Inr None"
  shows "collect rnd directory acc = Inr acc"
  using assms by (induction directory arbitrary: acc) auto




lemma process_pdfs_Returned:
  assumes "process_pdfs rnd directory excel = (Returned, excel1)"
  shows "\<exists>data base wb1. collect rnd directory [] = Inr data \<and>
     (excel = None \<and> base = [header] \<and> wb1 = [(''Dividends'', base @ map row_of data)] \<or>
      (\<exists>wb. excel = Some (Workbook wb) \<and> map_of wb ''Dividends'' = Some base \<and>
            wb1 = AList.update ''Dividends'' (base @ map row_of data) wb)) \<and>
     excel1 = Some (Workbook wb1)"
proof -
  from assms obtain data where c: "collect rnd directory [] = Inr data"
    and u: "update_excel excel data = (Returned, excel1)"
    by (auto simp: process_pdfs_def split: sum.splits)
  show ?thesis
  proof (cases excel)
    case None
    with u have "excel1 = Some (Workbook [(''Dividends'', [header] @ map row_of data)])"
      by (simp add: update_excel_new)
    with c None show ?thesis by auto
  next
    case (Some x)
    show ?thesis
    proof (cases x)
      case NotWorkbook
      with u Some show ?thesis by (simp add: update_excel_def)
    next
      case (Workbook wb)
      with u Some obtain base where b: "map_of wb ''Dividends'' = Some base"
        by (cases "map_of wb ''Dividends''") (auto simp: update_excel_def)
      from update_excel_existing[OF b, of data] u Some Workbook
      have "excel1 = Some (Workbook (AList.update ''Dividends'' (base @ map row_of data) wb))"
        by simp
      with c b Some Workbook show ?thesis by auto
    qed
  qed
qed

section \<open>The claims\<close>

text \<open>
  C1. When each of the four patterns has an instance in the page text, each has a first
  instance: the one that starts furthest to the left and, among those starting there, the
  longest, as the greedy repetitions take all they can. The record is made of these: the
  date, the issuer name and the dividend detail are exactly the text of the first
  instance of their pattern, and the amount is the number that the decimal numeral after
  \<open>Dividend\<close> and one white-space character denotes, converted to a float. A pattern with
  one instance only has it as its first; of several instances the leftmost one is taken.
\<close>

theorem record_of_first_instances:
  "(occurs date_re text \<and> occurs name_re text \<and> occurs dividend_re text \<and> occurs amount_re text \<longrightarrow>
      (\<exists>i1 j1 i2 j2 i3 j3 i4 j4.
         first_occ date_re text i1 j1 \<and> first_occ name_re text i2 j2 \<and>
         first_occ dividend_re text i3 j3 \<and> first_occ amount_re text i4 j4)) \<and>
   (first_occ date_re text i1 j1 \<and> first_occ name_re text i2 j2 \<and>
    first_occ dividend_re text i3 j3 \<and> first_occ amount_re text i4 j4 \<longrightarrow>
      (\<exists>ws ip fp.
         slice text i4 j4 = ''Dividend'' @ ws # ip @ ''.'' @ fp \<and> is_space ws \<and>
         ip \<noteq> [] \<and> fp \<noteq> [] \<and> list_all is_decimal ip \<and> list_all is_decimal fp \<and>
         extract_fields rnd text =
           Inr (Some (Str (slice text i1 j1), Str (slice text i2 j2), Str (slice text i3 j3),
                      Float (rnd (of_nat (nat_of_digits ip) + of_nat (nat_of_digits fp) / 10 ^ length fp))))))"
proof (intro conjI impI)
  assume "occurs date_re text \<and> occurs name_re text \<and> occurs dividend_re text \<and> occurs amount_re text"
  then show "\<exists>i1 j1 i2 j2 i3 j3 i4 j4.
         first_occ date_re text i1 j1 \<and> first_occ name_re text i2 j2 \<and>
         first_occ dividend_re text i3 j3 \<and> first_occ amount_re text i4 j4"
    using occurs_first_occ[OF desc_date_re, of "text"] occurs_first_occ[OF desc_name_re, of "text"]
      occurs_first_occ[OF desc_dividend_re, of "text"] occurs_first_occ[OF desc_amount_re, of "text"]
    by blast
next
  assume f: "first_occ date_re text i1 j1 \<and> first_occ name_re text i2 j2 \<and>
    first_occ dividend_re text i3 j3 \<and> first_occ amount_re text i4 j4"
  then obtain c1 c2 c3 c4 where s: "re_search date_re text = Some (i1, j1, c1)"
    "re_search name_re text = Some (i2, j2, c2)" "re_search dividend_re text = Some (i3, j3, c3)"
    "re_search amount_re text = Some (i4, j4, c4)"
    using first_occ_date first_occ_name first_occ_dividend first_occ_amount by blast
  from f have "occ amount_re text i4 j4" "i4 \<le> length text" by (simp_all add: first_occ_def)
  from amount_shape[OF this] obtain ws ip fp where
    a: "slice text i4 j4 = ''Dividend'' @ ws # ip @ ''.'' @ fp" "slice text (i4 + 9) j4 = ip @ ''.'' @ fp"
      "is_space ws" "ip \<noteq> []" "fp \<noteq> []" "list_all is_decimal ip" "list_all is_decimal fp"
    by blast
  have "extract_fields rnd text =
           Inr (Some (Str (slice text i1 j1), Str (slice text i2 j2), Str (slice text i3 j3),
                      Float (rnd (of_nat (nat_of_digits ip) + of_nat (nat_of_digits fp) / 10 ^ length fp))))"
    using extract_fields_Some[OF s, of rnd] a(2) decimal_value_parts[OF a(6), of fp] by simp
  then show "\<exists>ws ip fp.
         slice text i4 j4 = ''Dividend'' @ ws # ip @ ''.'' @ fp \<and> is_space ws \<and>
         ip \<noteq> [] \<and> fp \<noteq> [] \<and> list_all is_decimal ip \<and> list_all is_decimal fp \<and>
         extract_fields rnd text =
           Inr (Some (Str (slice text i1 j1), Str (slice text i2 j2), Str (slice text i3 j3),
                      Float (rnd (of_nat (nat_of_digits ip) + of_nat (nat_of_digits fp) / 10 ^ length fp))))"
    using a by blast
qed

theorem record_of_first_instances_witness:
  "first_occ date_re ''15Mar24 Acme Ltd 500@0.25 Dividend 123.45'' 0 7 \<and>
   first_occ name_re ''15Mar24 Acme Ltd 500@0.25 Dividend 123.45'' 7 16 \<and>
   first_occ dividend_re ''15Mar24 Acme Ltd 500@0.25 Dividend 123.45'' 17 25 \<and>
   first_occ amount_re ''15Mar24 Acme Ltd 500@0.25 Dividend 123.45'' 26 41 \<and>
   extract_fields (\<lambda>q. q) ''15Mar24 Acme Ltd 500@0.25 Dividend 123.45'' =
     Inr (Some (Str ''15Mar24'', Str '' Acme Ltd'', Str ''500@0.25'', Float (12345 / 100))) \<and>
   first_occ date_re ''Paid 01Jan20 and 15Mar24: A Co and B Ltd, 1@2.5 or 30@4.75; Dividend 1.5 Dividend 99.99'' 5 12 \<and>
   first_occ name_re ''Paid 01Jan20 and 15Mar24: A Co and B Ltd, 1@2.5 or 30@4.75; Dividend 1.5 Dividend 99.99'' 26 40 \<and>
   first_occ dividend_re ''Paid 01Jan20 and 15Mar24: A Co and B Ltd, 1@2.5 or 30@4.75; Dividend 1.5 Dividend 99.99'' 42 47 \<and>
   first_occ amount_re ''Paid 01Jan20 and 15Mar24: A Co and B Ltd, 1@2.5 or 30@4.75; Dividend 1.5 Dividend 99.99'' 60 72 \<and>
   extract_fields (\<lambda>q. q) ''Paid 01Jan20 and 15Mar24: A Co and B Ltd, 1@2.5 or 30@4.75; Dividend 1.5 Dividend 99.99'' =
     Inr (Some (Str ''01Jan20'', Str ''A Co and B Ltd'', Str ''1@2.5'', Float (15 / 10)))"
proof -
  let ?a = "''15Mar24 Acme Ltd 500@0.25 Dividend 123.45''"
  let ?b = "''Paid 01Jan20 and 15Mar24: A Co and B Ltd, 1@2.5 or 30@4.75; Dividend 1.5 Dividend 99.99''"
  have a: "re_search date_re ?a = Some (0, 7, [(1, 0, 7)])"
    "re_search name_re ?a = Some (7, 16, [(1, 7, 16), (2, 13, 16)])"
    "re_search dividend_re ?a = Some (17, 25, [(1, 17, 25)])"
    "re_search amount_re ?a = Some (26, 41, [(1, 35, 41)])"
    by code_simp+
  have b: "re_search date_re ?b = Some (5, 12, [(1, 5, 12)])"
    "re_search name_re ?b = Some (26, 40, [(1, 26, 40), (2, 37, 40)])"
    "re_search dividend_re ?b = Some (42, 47, [(1, 42, 47)])"
    "re_search amount_re ?b = Some (60, 72, [(1, 69, 72)])"
    by code_simp+
  have fa: "first_occ date_re ?a 0 7 \<and> first_occ name_re ?a 7 16 \<and>
      first_occ dividend_re ?a 17 25 \<and> first_occ amount_re ?a 26 41"
    using search_first_occ[OF desc_date_re a(1)] search_first_occ[OF desc_name_re a(2)]
      search_first_occ[OF desc_dividend_re a(3)] search_first_occ[OF desc_amount_re a(4)] by simp
  have fb: "first_occ date_re ?b 5 12 \<and> first_occ name_re ?b 26 40 \<and>
      first_occ dividend_re ?b 42 47 \<and> first_occ amount_re ?b 60 72"
    using search_first_occ[OF desc_date_re b(1)] search_first_occ[OF desc_name_re b(2)]
      search_first_occ[OF desc_dividend_re b(3)] search_first_occ[OF desc_amount_re b(4)] by simp
  have sa: "slice ?a 0 7 = ''15Mar24''" "slice ?a 7 16 = '' Acme Ltd''" "slice ?a 17 25 = ''500@0.25''"
    "slice ?a 26 41 = ''Dividend 123.45''" by code_simp+
  have sb: "slice ?b 5 12 = ''01Jan20''" "slice ?b 26 40 = ''A Co and B Ltd''" "slice ?b 42 47 = ''1@2.5''"
    "slice ?b 60 72 = ''Dividend 1.5''" by code_simp+
  from record_of_first_instances[of ?a 0 7 7 16 17 25 26 41 "\<lambda>q. q", THEN conjunct2, rule_format, OF fa]
  obtain x1 where
    ra: "extract_fields (\<lambda>q. q) ?a = Inr (Some (Str (slice ?a 0 7), Str (slice ?a 7 16), Str (slice ?a 17 25), Float x1))"
    by blast
  from record_of_first_instances[of ?b 5 12 26 40 42 47 60 72 "\<lambda>q. q", THEN conjunct2, rule_format, OF fb]
  obtain x2 where
    rb: "extract_fields (\<lambda>q. q) ?b = Inr (Some (Str (slice ?b 5 12), Str (slice ?b 26 40), Str (slice ?b 42 47), Float x2))"
    by blast
  have xa: "extract_fields (\<lambda>q. q) ?a = Inr (Some (Str ''15Mar24'', Str '' Acme Ltd'', Str ''500@0.25'', Float (12345 / 100)))"
    by code_simp
  have xb: "extract_fields (\<lambda>q. q) ?b = Inr (Some (Str ''01Jan20'', Str ''A Co and B Ltd'', Str ''1@2.5'', Float (15 / 10)))"
    by code_simp
  show ?thesis using fa fb xa xb ra rb by simp
qed

text \<open>
  C2. When one of the four patterns (date, issuer name, dividend detail, amount) has no
  instance anywhere in the page text, the four searches yield no record: the result is
  \<open>None\<close>, whichever of the four is the missing one.
\<close>

theorem missing_pattern_no_record:
  assumes "\<not> occurs date_re text \<or> \<not> occurs name_re text \<or>
           \<not> occurs dividend_re text \<or> \<not> occurs amount_re text"
  shows "extract_fields rnd text = Inr None"
  using assms by (intro extract_fields_None) (simp add: re_search_None)

theorem missing_pattern_no_record_witness:
  "(\<not> occurs date_re ''Acme Ltd 500@0.25 Dividend 123.45'' \<and>
    occurs name_re ''Acme Ltd 500@0.25 Dividend 123.45'' \<and>
    occurs dividend_re ''Acme Ltd 500@0.25 Dividend 123.45'' \<and>
    occurs amount_re ''Acme Ltd 500@0.25 Dividend 123.45'' \<and>
    extract_fields (\<lambda>q. q) ''Acme Ltd 500@0.25 Dividend 123.45'' = Inr None) \<and>
   (occurs date_re ''15Mar24 500@0.25 Dividend 123.45'' \<and>
    \<not> occurs name_re ''15Mar24 500@0.25 Dividend 123.45'' \<and>
    occurs dividend_re ''15Mar24 500@0.25 Dividend 123.45'' \<and>
    occurs amount_re ''15Mar24 500@0.25 Dividend 123.45'' \<and>
    extract_fields (\<lambda>q. q) ''15Mar24 500@0.25 Dividend 123.45'' = Inr None) \<and>
   (occurs date_re ''15Mar24 Acme Ltd Dividend 123.45'' \<and>
    occurs name_re ''15Mar24 Acme Ltd Dividend 123.45'' \<and>
    \<not> occurs dividend_re ''15Mar24 Acme Ltd Dividend 123.45'' \<and>
    occurs amount_re ''15Mar24 Acme Ltd Dividend 123.45'' \<and>
    extract_fields (\<lambda>q. q) ''15Mar24 Acme Ltd Dividend 123.45'' = Inr None) \<and>
   (occurs date_re ''15Mar24 Acme Ltd 500@0.25'' \<and>
    occurs name_re ''15Mar24 Acme Ltd 500@0.25'' \<and>
    occurs dividend_re ''15Mar24 Acme Ltd 500@0.25'' \<and>
    \<not> occurs amount_re ''15Mar24 Acme Ltd 500@0.25'' \<and>
    extract_fields (\<lambda>q. q) ''15Mar24 Acme Ltd 500@0.25'' = Inr None)"
proof -
  let ?a = "''Acme Ltd 500@0.25 Dividend 123.45''"
  let ?b = "''15Mar24 500@0.25 Dividend 123.45''"
  let ?c = "''15Mar24 Acme Ltd Dividend 123.45''"
  let ?d = "''15Mar24 Acme Ltd 500@0.25''"
  have a: "re_search date_re ?a = None" "re_search name_re ?a \<noteq> None"
    "re_search dividend_re ?a \<noteq> None" "re_search amount_re ?a \<noteq> None" by code_simp+
  have b: "re_search date_re ?b \<noteq> None" "re_search name_re ?b = None"
    "re_search dividend_re ?b \<noteq> None" "re_search amount_re ?b \<noteq> None" by code_simp+
  have c: "re_search date_re ?c \<noteq> None" "re_search name_re ?c \<noteq> None"
    "re_search dividend_re ?c = None" "re_search amount_re ?c \<noteq> None" by code_simp+
  have d: "re_search date_re ?d \<noteq> None" "re_search name_re ?d \<noteq> None"
    "re_search dividend_re ?d \<noteq> None" "re_search amount_re ?d = None" by code_simp+
  note o = a b c d
  note o' = o[unfolded re_search_None]
  show ?thesis
    using missing_pattern_no_record[of ?a "\<lambda>q. q"] missing_pattern_no_record[of ?b "\<lambda>q. q"]
      missing_pattern_no_record[of ?c "\<lambda>q. q"] missing_pattern_no_record[of ?d "\<lambda>q. q"] o'
    by blast
qed

text \<open>
  C3. A document with fewer than three pages yields no record, and the run ends as it
  would without that document: it adds no row to the store. For a document with at least
  three pages the result is that of the four searches on the text of its third page (the
  page at index 2).
\<close>

theorem third_page_or_skip:
  "(length pages < 3 \<longrightarrow>
      extract_dividend_details rnd (Pdf pages) = Inr None \<and>
      process_pdfs rnd (pre @ (filename, Pdf pages) # post) excel = process_pdfs rnd (pre @ post) excel) \<and>
   (\<forall>p1 p2 p3 rest. pages = p1 # p2 # p3 # rest \<longrightarrow>
      extract_dividend_details rnd (Pdf pages) = extract_fields rnd p3)"
proof (intro conjI impI allI)
  assume "length pages < 3"
  then show n: "extract_dividend_details rnd (Pdf pages) = Inr None"
    by (simp add: extract_dividend_details_def)
  show "process_pdfs rnd (pre @ (filename, Pdf pages) # post) excel = process_pdfs rnd (pre @ post) excel"
    by (simp add: process_pdfs_def collect_skip[OF n])
next
  fix p1 p2 p3 rest assume "pages = p1 # p2 # p3 # rest"
  then show "extract_dividend_details rnd (Pdf pages) = extract_fields rnd p3"
    by (simp add: extract_dividend_details_def)
qed

theorem third_page_or_skip_witness:
  "length [''15Mar24 Acme Ltd 500@0.25 Dividend 123.45'', ''''] < 3 \<and>
   extract_dividend_details (\<lambda>q. q) (Pdf [''15Mar24 Acme Ltd 500@0.25 Dividend 123.45'', '''']) = Inr None \<and>
   process_pdfs (\<lambda>q. q)
     ([] @ (''short.pdf'', Pdf [''15Mar24 Acme Ltd 500@0.25 Dividend 123.45'', '''']) #
        [(''a.pdf'', Pdf [''x'', ''y'', ''15Mar24 Acme Ltd 500@0.25 Dividend 123.45''])]) None =
     (Returned, Some (Workbook [(''Dividends'',
        [[Str ''Date'', Str ''Name'', Str ''Dividend Details'', Str ''Amount''],
         [Str ''15Mar24'', Str '' Acme Ltd'', Str ''500@0.25'', Float (2469 / 20)]])])) \<and>
   extract_dividend_details (\<lambda>q. q) (Pdf [''x'', ''y'', ''15Mar24 Acme Ltd 500@0.25 Dividend 123.45'', ''z'']) =
     Inr (Some (Str ''15Mar24'', Str '' Acme Ltd'', Str ''500@0.25'', Float (2469 / 20)))"
proof -
  let ?t = "''15Mar24 Acme Ltd 500@0.25 Dividend 123.45''"
  have e: "extract_fields (\<lambda>q. q) ?t = Inr (Some (Str ''15Mar24'', Str '' Acme Ltd'', Str ''500@0.25'', Float (2469 / 20)))"
    by code_simp
  have p: "process_pdfs (\<lambda>q. q) ([] @ [(''a.pdf'', Pdf [''x'', ''y'', ?t])]) None =
     (Returned, Some (Workbook [(''Dividends'',
        [[Str ''Date'', Str ''Name'', Str ''Dividend Details'', Str ''Amount''],
         [Str ''15Mar24'', Str '' Acme Ltd'', Str ''500@0.25'', Float (2469 / 20)]])]))"
    by code_simp
  show ?thesis
    using third_page_or_skip[of "[?t, '''']" "\<lambda>q. q" "[]" "''short.pdf''" "[(''a.pdf'', Pdf [''x'', ''y'', ?t])]" None]
      third_page_or_skip[of "[''x'', ''y'', ?t, ''z'']" "\<lambda>q. q" "[]" "''a.pdf''" "[]" None] e p
    by simp
qed






text \<open>
  C6. When the destination exists and has no sheet named "Dividends", \<open>update_excel\<close>
  fails on the lookup of the sheet, and the whole run fails with it: \<open>process_pdfs\<close> ends
  with an exception whatever the directory holds, and the destination is what it was
  (no row appended, nothing saved).
\<close>

theorem missing_sheet_is_fatal:
  assumes "''Dividends'' \<notin> fst ` set workbook"
  shows "update_excel (Some (Workbook workbook)) data =
           (Raised (KeyError ''Dividends''), Some (Workbook workbook)) \<and>
         (\<exists>e. process_pdfs rnd directory (Some (Workbook workbook)) = (Raised e, Some (Workbook workbook))) \<and>
         (collect rnd directory [] = Inr data \<longrightarrow>
            process_pdfs rnd directory (Some (Workbook workbook)) =
              (Raised (KeyError ''Dividends''), Some (Workbook workbook)))"
proof -
  from assms have "map_of workbook ''Dividends'' = None" by (simp add: map_of_eq_None_iff)
  then have u: "update_excel (Some (Workbook workbook)) d =
           (Raised (KeyError ''Dividends''), Some (Workbook workbook))" for d :: "'a details list"
    by (rule update_excel_no_sheet)
  show ?thesis using u by (auto simp: process_pdfs_def split: sum.splits)
qed

theorem missing_sheet_is_fatal_witness:
  "''Dividends'' \<notin> fst ` set [(''Sheet1'', [[Str ''Date'', Float (1::rat)]])] \<and>
   update_excel (Some (Workbook [(''Sheet1'', [[Str ''Date'', Float (1::rat)]])]))
     [(Str ''15Mar24'', Str '' Acme Ltd'', Str ''500@0.25'', Float (2469 / 20))] =
     (Raised (KeyError ''Dividends''), Some (Workbook [(''Sheet1'', [[Str ''Date'', Float 1]])])) \<and>
   process_pdfs (\<lambda>q. q) [(''a.pdf'', Pdf [''x'', ''y'', ''15Mar24 Acme Ltd 500@0.25 Dividend 123.45''])]
     (Some (Workbook [(''Sheet1'', [[Str ''Date'', Float (1::rat)]])])) =
     (Raised (KeyError ''Dividends''), Some (Workbook [(''Sheet1'', [[Str ''Date'', Float 1]])]))"
proof -
  let ?dir = "[(''a.pdf'', Pdf [''x'', ''y'', ''15Mar24 Acme Ltd 500@0.25 Dividend 123.45''])]"
  let ?data = "[(Str ''15Mar24'', Str '' Acme Ltd'', Str ''500@0.25'', Float (2469 / 20 :: rat))]"
  let ?wb = "[(''Sheet1'', [[Str ''Date'', Float (1::rat)]])]"
  have c: "collect (\<lambda>q. q) ?dir [] = Inr ?data" by code_simp
  have h: "''Dividends'' \<notin> fst ` set ?wb" by simp
  show ?thesis
    using missing_sheet_is_fatal[OF h, of ?data "\<lambda>q. q" ?dir] c h by simp
qed





text \<open>
  C9. A run is not idempotent. When a run of \<open>process_pdfs\<close> has returned, a second run
  on the same directory and on the destination the first one saved returns too, and it
  appends the rows of the first run once more: after the sheet the first run started from
  (the header alone when the destination did not exist) the sheet "Dividends" holds the
  rows of the matched documents twice, every row counted twice as often as after the
  first run, and the saved workbook differs from that of the first run as soon as one
  document matched.
\<close>

theorem second_run_appends_again:
  assumes "process_pdfs rnd directory excel = (Returned, excel1)"
  shows "\<exists>data base wb1 wb2.
     collect rnd directory [] = Inr data \<and>
     (excel = None \<and> base = [header] \<or>
      (\<exists>wb. excel = Some (Workbook wb) \<and> map_of wb ''Dividends'' = Some base)) \<and>
     excel1 = Some (Workbook wb1) \<and>
     map_of wb1 ''Dividends'' = Some (base @ map row_of data) \<and>
     process_pdfs rnd directory excel1 = (Returned, Some (Workbook wb2)) \<and>
     map_of wb2 ''Dividends'' = Some (base @ map row_of data @ map row_of data) \<and>
     (\<forall>r. count_list (map row_of data @ map row_of data) r = 2 * count_list (map row_of data) r) \<and>
     (data \<noteq> [] \<longrightarrow> wb2 \<noteq> wb1)"
proof -
  from process_pdfs_Returned[OF assms] obtain data base wb1 where
    c: "collect rnd directory [] = Inr data" and
    e: "excel = None \<and> base = [header] \<and> wb1 = [(''Dividends'', base @ map row_of data)] \<or>
      (\<exists>wb. excel = Some (Workbook wb) \<and> map_of wb ''Dividends'' = Some base \<and>
            wb1 = AList.update ''Dividends'' (base @ map row_of data) wb)" and
    x: "excel1 = Some (Workbook wb1)" by blast
  let ?s1 = "base @ map row_of data"
  let ?s2 = "base @ map row_of data @ map row_of data"
  let ?wb2 = "AList.update ''Dividends'' ?s2 wb1"
  have m1: "map_of wb1 ''Dividends'' = Some ?s1"
    using e by (auto simp: map_of_update_same)
  have "update_excel excel1 data = (Returned, Some (Workbook ?wb2))"
    using update_excel_existing[OF m1, of data] x by simp
  then have p2: "process_pdfs rnd directory excel1 = (Returned, Some (Workbook ?wb2))"
    using c by (simp add: process_pdfs_def)
  have m2: "map_of ?wb2 ''Dividends'' = Some ?s2" by (rule map_of_update_same)
  have ne: "data \<noteq> [] \<longrightarrow> ?wb2 \<noteq> wb1"
  proof (intro impI notI)
    assume d: "data \<noteq> []" and "?wb2 = wb1"
    then have "Some ?s2 = Some ?s1" using m1 m2 by simp
    then show False using d by simp
  qed
  have e': "excel = None \<and> base = [header] \<or>
      (\<exists>wb. excel = Some (Workbook wb) \<and> map_of wb ''Dividends'' = Some base)"
    using e by blast
  show ?thesis
    using c e' x m1 p2 m2 ne
    by (intro exI[of _ data] exI[of _ base] exI[of _ wb1] exI[of _ ?wb2]) simp
qed

theorem second_run_appends_again_witness:
  "process_pdfs (\<lambda>q. q) [(''a.pdf'', Pdf [''x'', ''y'', ''15Mar24 Acme Ltd 500@0.25 Dividend 123.45''])] None =
     (Returned, Some (Workbook [(''Dividends'',
        [[Str ''Date'', Str ''Name'', Str ''Dividend Details'', Str ''Amount''],
         [Str ''15Mar24'', Str '' Acme Ltd'', Str ''500@0.25'', Float (2469 / 20)]])])) \<and>
   process_pdfs (\<lambda>q. q) [(''a.pdf'', Pdf [''x'', ''y'', ''15Mar24 Acme Ltd 500@0.25 Dividend 123.45''])]
     (Some (Workbook [(''Dividends'',
        [[Str ''Date'', Str ''Name'', Str ''Dividend Details'', Str ''Amount''],
         [Str ''15Mar24'', Str '' Acme Ltd'', Str ''500@0.25'', Float (2469 / 20)]])])) =
     (Returned, Some (Workbook [(''Dividends'',
        [[Str ''Date'', Str ''Name'', Str ''Dividend Details'', Str ''Amount''],
         [Str ''15Mar24'', Str '' Acme Ltd'', Str ''500@0.25'', Float (2469 / 20)],
         [Str ''15Mar24'', Str '' Acme Ltd'', Str ''500@0.25'', Float (2469 / 20)]])]))"
proof -
  let ?dir = "[(''a.pdf'', Pdf [''x'', ''y'', ''15Mar24 Acme Ltd 500@0.25 Dividend 123.45''])]"
  let ?r = "[Str ''15Mar24'', Str '' Acme Ltd'', Str ''500@0.25'', Float (2469 / 20 :: rat)]"
  let ?h = "[Str ''Date'', Str ''Name'', Str ''Dividend Details'', Str ''Amount''] :: rat row"
  let ?e1 = "Some (Workbook [(''Dividends'', [?h, ?r])])"
  have c: "collect (\<lambda>q. q) ?dir [] = Inr [(Str ''15Mar24'', Str '' Acme Ltd'', Str ''500@0.25'', Float (2469 / 20))]"
    by code_simp
  have p: "process_pdfs (\<lambda>q. q) ?dir None = (Returned, ?e1)"
    using c by (simp add: process_pdfs_def update_excel_new header_def row_of_def)
  from second_run_appends_again[OF p] obtain data base wb1 wb2 where
    w: "collect (\<lambda>q. q) ?dir [] = Inr data"
       "base = [header]"
       "process_pdfs (\<lambda>q. q) ?dir ?e1 = (Returned, Some (Workbook wb2))"
       "?e1 = Some (Workbook wb1)"
       "map_of wb2 ''Dividends'' = Some (base @ map row_of data @ map row_of data)"
    by auto
  have wb2: "process_pdfs (\<lambda>q. q) ?dir ?e1 = (Returned, Some (Workbook [(''Dividends'', [?h, ?r, ?r])]))"
    using c by (simp add: process_pdfs_def update_excel_def sheet_append_def row_of_def)
  show ?thesis using p wb2 by simp
qed

text \<open>
  C10. When no document yields a record (the directory is empty, or no name ends in
  \<open>.pdf\<close>, or every document is skipped), the loop ends with the empty list, and
  \<open>update_excel\<close> is still called with it: a destination that did not exist is created and
  saved with the sheet "Dividends" holding the header row and no data row.
\<close>

theorem no_record_header_only:
  assumes "\<forall>(filename, f) \<in> set directory.
             endswith filename ''.pdf'' \<longrightarrow> extract_dividend_details rnd f = Inr None"
  shows "collect rnd directory [] = Inr [] \<and>
         process_pdfs rnd directory None = update_excel None [] \<and>
         process_pdfs rnd directory None =
           (Returned, Some (Workbook [(''Dividends'',
              [[Str ''Date'', Str ''Name'', Str ''Dividend Details'', Str ''Amount'']])]))"
  using collect_all_skipped[OF assms, of "[]"]
  by (simp add: process_pdfs_def update_excel_new header_def)

theorem no_record_header_only_witness:
  "\<not> endswith ''notes.txt'' ''.pdf'' \<and>
   extract_dividend_details (\<lambda>q. q) (Pdf [''15Mar24'', ''Acme Ltd'']) = Inr None \<and>
   extract_dividend_details (\<lambda>q. q) (Pdf [''x'', ''y'', ''Acme Ltd 500@0.25 Dividend 123.45'']) = Inr None \<and>
   process_pdfs (\<lambda>q. q) [(''notes.txt'', Unopenable), (''short.pdf'', Pdf [''15Mar24'', ''Acme Ltd'']),
        (''nodate.pdf'', Pdf [''x'', ''y'', ''Acme Ltd 500@0.25 Dividend 123.45''])] None =
     (Returned, Some (Workbook [(''Dividends'',
        [[Str ''Date'', Str ''Name'', Str ''Dividend Details'', Str ''Amount'']])])) \<and>
   process_pdfs (\<lambda>q. q) [] None =
     (Returned, Some (Workbook [(''Dividends'',
        [[Str ''Date'', Str ''Name'', Str ''Dividend Details'', Str ''Amount'']])]))"
proof -
  let ?dir = "[(''notes.txt'', Unopenable), (''short.pdf'', Pdf [''15Mar24'', ''Acme Ltd'']),
        (''nodate.pdf'', Pdf [''x'', ''y'', ''Acme Ltd 500@0.25 Dividend 123.45''])]"
  have a: "\<not> endswith ''notes.txt'' ''.pdf''" by (simp add: endswith_def)
  have b: "extract_dividend_details (\<lambda>q. q) (Pdf [''15Mar24'', ''Acme Ltd'']) = Inr None" by code_simp
  have c: "extract_dividend_details (\<lambda>q. q) (Pdf [''x'', ''y'', ''Acme Ltd 500@0.25 Dividend 123.45'']) = Inr None"
    by code_simp
  have h: "\<forall>(filename, f) \<in> set ?dir.
      endswith filename ''.pdf'' \<longrightarrow> extract_dividend_details (\<lambda>q. q) f = Inr None"
    using a b c by simp
  have e: "\<forall>(filename, f) \<in> set ([] :: (string \<times> pdf_file) list).
      endswith filename ''.pdf'' \<longrightarrow> extract_dividend_details (\<lambda>q. q) f = Inr None"
    by simp
  note t1 = no_record_header_only[OF h, THEN conjunct2, THEN conjunct2]
  note t2 = no_record_header_only[OF e, THEN conjunct2, THEN conjunct2]
  show ?thesis using a b c t1 t2 by blast
qed

end
